theory Spec2Isabelle
  imports Complex_Main "HOL-Library.Monad_Syntax"
begin

section \<open>Python values used by \<open>utils/subtitle.py\<close>\<close>

text \<open>
  The subtitle module works on Python \<open>str\<close>, \<open>int\<close> and \<open>float\<close> values and on lists of
  dictionaries. The embedding makes the following choices.
  \<^item> A \<open>str\<close> is a \<open>string\<close>: a list of characters with code points \<open>0..255\<close> (the Latin-1
    range of Unicode), so \<open>length\<close> counts characters as Python's \<open>len\<close> does.
  \<^item> A \<open>float\<close> holding seconds is an exact \<open>real\<close>; rounding of IEEE doubles is not part
    of the model.
  \<^item> Every \<open>raise\<close> the interpreter can perform in the modelled code is a value \<open>Inl e\<close> of
    a sum type.
\<close>

datatype error = IndexError | ValueError

subsection \<open>Characters and whitespace\<close>

text \<open>
  \<open>str.strip()\<close>, the regular-expression class \<open>\s\<close> and \<open>int()\<close> all use the interpreter's
  notion of a whitespace character. Below code point 256 these are the characters
  \<open>0x09..0x0D\<close>, \<open>0x1C..0x1F\<close>, \<open>0x20\<close>, \<open>0x85\<close> and \<open>0xA0\<close>. The class \<open>\d\<close> and \<open>int()\<close>
  accept the decimal digits; below 256 these are \<open>0..9\<close>.
\<close>

definition is_space :: "char \<Rightarrow> bool" where
  "is_space c \<longleftrightarrow>
     (of_char c :: nat) \<in> {9, 10, 11, 12, 13, 28, 29, 30, 31, 32, 133, 160}"

definition is_digit :: "char \<Rightarrow> bool" where
  "is_digit c \<longleftrightarrow> 48 \<le> (of_char c :: nat) \<and> (of_char c :: nat) \<le> 57"

definition digit_val :: "char \<Rightarrow> nat" where
  "digit_val c = of_char c - 48"

definition digit_char :: "nat \<Rightarrow> char" where
  "digit_char d = ''0123456789'' ! d"

definition strip :: "string \<Rightarrow> string" where
  \<comment> \<open>\<open>s.strip()\<close>\<close>
  "strip s = rev (dropWhile is_space (rev (dropWhile is_space s)))"

subsection \<open>Integers as text\<close>

text \<open>\<open>str_nat n\<close> is the decimal numeral of a natural number, without padding.\<close>

fun str_nat :: "nat \<Rightarrow> string" where
  "str_nat n = (if n < 10 then [digit_char n]
                else str_nat (n div 10) @ [digit_char (n mod 10)])"

declare str_nat.simps [simp del]

definition zfill :: "nat \<Rightarrow> string \<Rightarrow> string" where
  "zfill w s = replicate (w - length s) CHR ''0'' @ s"

definition format_d :: "nat \<Rightarrow> int \<Rightarrow> string" where
  \<comment> \<open>The format specification \<open>{n:0wd}\<close>: sign-aware zero padding to width \<open>w\<close>.\<close>
  "format_d w n =
     (if n < 0 then CHR ''-'' # zfill (w - 1) (str_nat (nat (- n)))
      else zfill w (str_nat (nat n)))"

text \<open>
  \<open>int(s)\<close> for a string argument: surrounding whitespace is ignored, one sign is allowed,
  and the digits may be grouped by single underscores. \<open>None\<close> stands for \<open>ValueError\<close>.
  (The interpreter's configurable limit on the number of digits is not modelled; exceeding
  it raises \<open>ValueError\<close> as well.)
\<close>

fun digits_val :: "nat \<Rightarrow> string \<Rightarrow> nat option" where
  "digits_val acc [] = Some acc"
| "digits_val acc (c # cs) =
     (if is_digit c then digits_val (10 * acc + digit_val c) cs
      else if c = CHR ''_'' then
        (case cs of
           [] \<Rightarrow> None
         | d # ds \<Rightarrow> if is_digit d then digits_val (10 * acc + digit_val d) ds else None)
      else None)"

definition nat_of_str :: "string \<Rightarrow> nat option" where
  "nat_of_str s =
     (case s of
        [] \<Rightarrow> None
      | c # cs \<Rightarrow> if is_digit c then digits_val (digit_val c) cs else None)"

definition py_int :: "string \<Rightarrow> int option" where
  "py_int s =
     (case strip s of
        [] \<Rightarrow> None
      | c # cs \<Rightarrow>
          if c = CHR ''-'' then map_option (\<lambda>n. - int n) (nat_of_str cs)
          else if c = CHR ''+'' then map_option int (nat_of_str cs)
          else map_option int (nat_of_str (c # cs)))"

subsection \<open>Float arithmetic\<close>

definition float_floordiv :: "real \<Rightarrow> real \<Rightarrow> real" where
  \<comment> \<open>\<open>x // y\<close> on floats\<close>
  "float_floordiv x y = of_int \<lfloor>x / y\<rfloor>"

definition float_mod :: "real \<Rightarrow> real \<Rightarrow> real" where
  \<comment> \<open>\<open>x % y\<close> on floats: the remainder of the floored quotient\<close>
  "float_mod x y = x - y * of_int \<lfloor>x / y\<rfloor>"

definition int_of_float :: "real \<Rightarrow> int" where
  \<comment> \<open>\<open>int(x)\<close> on a float truncates towards zero\<close>
  "int_of_float x = (if 0 \<le> x then \<lfloor>x\<rfloor> else \<lceil>x\<rceil>)"

subsection \<open>Regular-expression fragments\<close>

text \<open>
  Every pattern of the module is matched with \<open>re.match\<close>, that is, against a prefix of
  the subject. The patterns are sequences of fixed-width digit groups, single characters,
  \<open>\s*\<close> and the literal \<open>-->\<close>; no alternative of one fragment is a prefix of what another
  accepts, so matching left to right without backtracking is exact. A fragment returns
  what it captured and the rest of the subject.
\<close>

definition re_digits :: "nat \<Rightarrow> string \<Rightarrow> (string \<times> string) option" where
  \<comment> \<open>\<open>(\d{n})\<close>\<close>
  "re_digits n s =
     (if n \<le> length s \<and> list_all is_digit (take n s) then Some (take n s, drop n s)
      else None)"

definition re_char :: "(char \<Rightarrow> bool) \<Rightarrow> string \<Rightarrow> (string \<times> string) option" where
  \<comment> \<open>one character of a class\<close>
  "re_char P s = (case s of [] \<Rightarrow> None | c # r \<Rightarrow> if P c then Some ([c], r) else None)"

definition re_spaces :: "string \<Rightarrow> string" where
  \<comment> \<open>\<open>\s*\<close>, greedy\<close>
  "re_spaces s = dropWhile is_space s"

definition re_lit :: "string \<Rightarrow> string \<Rightarrow> string option" where
  \<comment> \<open>a literal\<close>
  "re_lit l s = (if take (length l) s = l then Some (drop (length l) s) else None)"

definition is_colon :: "char \<Rightarrow> bool" where
  "is_colon c \<longleftrightarrow> c = CHR '':''"

definition is_sep :: "char \<Rightarrow> bool" where
  \<comment> \<open>\<open>[,.]\<close>\<close>
  "is_sep c \<longleftrightarrow> c = CHR '','' \<or> c = CHR ''.''"

definition re_timestamp_full ::
  "string \<Rightarrow> ((string \<times> string \<times> string \<times> string) \<times> string) option" where
  \<comment> \<open>\<open>(\d{2}):(\d{2}):(\d{2})[,.](\d{3})\<close>\<close>
  "re_timestamp_full s = do {
     (h, r) \<leftarrow> re_digits 2 s;
     (_, r) \<leftarrow> re_char is_colon r;
     (m, r) \<leftarrow> re_digits 2 r;
     (_, r) \<leftarrow> re_char is_colon r;
     (sec, r) \<leftarrow> re_digits 2 r;
     (_, r) \<leftarrow> re_char is_sep r;
     (ms, r) \<leftarrow> re_digits 3 r;
     Some ((h, m, sec, ms), r)
   }"

definition re_timestamp_short ::
  "string \<Rightarrow> ((string \<times> string \<times> string) \<times> string) option" where
  \<comment> \<open>\<open>(\d{2}):(\d{2})[.,](\d{3})\<close>\<close>
  "re_timestamp_short s = do {
     (m, r) \<leftarrow> re_digits 2 s;
     (_, r) \<leftarrow> re_char is_colon r;
     (sec, r) \<leftarrow> re_digits 2 r;
     (_, r) \<leftarrow> re_char is_sep r;
     (ms, r) \<leftarrow> re_digits 3 r;
     Some ((m, sec, ms), r)
   }"

section \<open>Timestamp codec\<close>

definition format_timestamp_srt :: "real \<Rightarrow> string" where
  "format_timestamp_srt seconds =
     (let hours = int_of_float (float_floordiv seconds 3600);
          minutes = int_of_float (float_floordiv (float_mod seconds 3600) 60);
          secs = int_of_float (float_mod seconds 60);
          millis = int_of_float ((seconds - of_int (int_of_float seconds)) * 1000)
      in format_d 2 hours @ '':'' @ format_d 2 minutes @ '':'' @ format_d 2 secs @ '',''
         @ format_d 3 millis)"

definition seconds_of_fields :: "int \<Rightarrow> int \<Rightarrow> int \<Rightarrow> int \<Rightarrow> real" where
  \<comment> \<open>\<open>hours * 3600 + minutes * 60 + seconds + millis / 1000\<close>\<close>
  "seconds_of_fields hours minutes seconds millis =
     of_int (hours * 3600 + minutes * 60 + seconds) + of_int millis / 1000"

definition parse_timestamp_srt :: "string \<Rightarrow> error + real" where
  "parse_timestamp_srt timestamp =
     (case re_timestamp_full (strip timestamp) of
        None \<Rightarrow> Inr 0
      | Some ((h, m, s, ms), _) \<Rightarrow>
          (case (py_int h, py_int m, py_int s, py_int ms) of
             (Some hours, Some minutes, Some seconds, Some millis) \<Rightarrow>
               Inr (seconds_of_fields hours minutes seconds millis)
           | _ \<Rightarrow> Inl ValueError))"

definition parse_timestamp_vtt :: "string \<Rightarrow> error + real" where
  "parse_timestamp_vtt timestamp =
     (case re_timestamp_full (strip timestamp) of
        Some ((h, m, s, ms), _) \<Rightarrow>
          (case (py_int h, py_int m, py_int s, py_int ms) of
             (Some hours, Some minutes, Some seconds, Some millis) \<Rightarrow>
               Inr (seconds_of_fields hours minutes seconds millis)
           | _ \<Rightarrow> Inl ValueError)
      | None \<Rightarrow>
          (case re_timestamp_short (strip timestamp) of
             Some ((m, s, ms), _) \<Rightarrow>
               (case (py_int m, py_int s, py_int ms) of
                  (Some minutes, Some seconds, Some millis) \<Rightarrow>
                    Inr (seconds_of_fields 0 minutes seconds millis)
                | _ \<Rightarrow> Inl ValueError)
           | None \<Rightarrow> Inr 0))"

section \<open>Segments\<close>

text \<open>
  A segment is a dictionary with the keys \<open>start\<close>, \<open>end\<close> and \<open>text\<close>, and optionally
  \<open>index\<close> and \<open>original\<close>. The two optional keys are \<open>option\<close> fields: \<open>None\<close> means that
  the dictionary has no such key.
\<close>

record segment =
  seg_index :: "int option"
  seg_start :: real
  seg_end :: real
  seg_text :: string
  seg_original :: "string option"

section \<open>Lists and text\<close>

definition py_index :: "'a list \<Rightarrow> int \<Rightarrow> error + 'a" where
  \<comment> \<open>\<open>xs[i]\<close>: a negative subscript counts from the end, anything outside raises\<close>
  "py_index xs i =
     (if 0 \<le> i \<and> i < int (length xs) then Inr (xs ! nat i)
      else if i < 0 \<and> - i \<le> int (length xs) then Inr (xs ! nat (int (length xs) + i))
      else Inl IndexError)"

fun index_all :: "'a list \<Rightarrow> int list \<Rightarrow> error + 'a list" where
  \<comment> \<open>\<open>xs[i] for i in is\<close>, stopping at the first subscript that raises\<close>
  "index_all xs [] = Inr []"
| "index_all xs (i # is) =
     (case py_index xs i of
        Inl e \<Rightarrow> Inl e
      | Inr x \<Rightarrow> (case index_all xs is of Inl e \<Rightarrow> Inl e | Inr ys \<Rightarrow> Inr (x # ys)))"

fun join :: "string \<Rightarrow> string list \<Rightarrow> string" where
  \<comment> \<open>\<open>sep.join(xs)\<close>\<close>
  "join sep [] = []"
| "join sep [x] = x"
| "join sep (x # y # ys) = x @ sep @ join sep (y # ys)"

fun split_lines :: "string \<Rightarrow> string list" where
  \<comment> \<open>\<open>s.split('\n')\<close>\<close>
  "split_lines [] = [[]]"
| "split_lines (c # cs) =
     (if c = CHR 0x0A then [] # split_lines cs
      else (case split_lines cs of [] \<Rightarrow> [[c]] | l # ls \<Rightarrow> (c # l) # ls))"

function split_blocks :: "string \<Rightarrow> string list" where
  \<comment> \<open>\<open>re.split(r'\n\n+', s)\<close>: a separator is a maximal run of two or more newlines\<close>
  "split_blocks [] = [[]]"
| "split_blocks (c # cs) =
     (if c = CHR 0x0A \<and> take 1 cs = [CHR 0x0A]
      then [] # split_blocks (dropWhile (\<lambda>x. x = CHR 0x0A) cs)
      else (case split_blocks cs of [] \<Rightarrow> [[c]] | b # bs \<Rightarrow> (c # b) # bs))"
  by pat_completeness auto
termination
  by (relation "measure length") (auto simp: less_Suc_eq_le length_dropWhile_le)

fun contains :: "string \<Rightarrow> string \<Rightarrow> bool" where
  \<comment> \<open>\<open>sub in s\<close>\<close>
  "contains sub [] = (sub = [])"
| "contains sub (c # cs) = (take (length sub) (c # cs) = sub \<or> contains sub cs)"

definition rfind :: "string \<Rightarrow> char \<Rightarrow> nat \<Rightarrow> int" where
  \<comment> \<open>\<open>text.rfind(c, 0, e)\<close> for \<open>e \<ge> 0\<close>: the last position below \<open>e\<close> holding \<open>c\<close>, or \<open>-1\<close>\<close>
  "rfind text c e =
     (case filter (\<lambda>p. text ! p = c) (rev [0..<min e (length text)]) of
        [] \<Rightarrow> - 1
      | p # _ \<Rightarrow> int p)"

section \<open>Format parser\<close>

definition re_timestamp_text :: "string \<Rightarrow> (string \<times> string) option" where
  \<comment> \<open>\<open>(\d{2}:\d{2}:\d{2}[,\.]\d{3})\<close>: the matched text and the rest\<close>
  "re_timestamp_text s =
     (case re_timestamp_full s of
        None \<Rightarrow> None
      | Some (_, r) \<Rightarrow> Some (take (length s - length r) s, r))"

definition re_timestamp_text_vtt :: "string \<Rightarrow> (string \<times> string) option" where
  \<comment> \<open>\<open>(\d{2}:\d{2}:\d{2}[.,]\d{3}|\d{2}:\d{2}[.,]\d{3})\<close>\<close>
  "re_timestamp_text_vtt s =
     (case re_timestamp_full s of
        Some (_, r) \<Rightarrow> Some (take (length s - length r) s, r)
      | None \<Rightarrow>
          (case re_timestamp_short s of
             None \<Rightarrow> None
           | Some (_, r) \<Rightarrow> Some (take (length s - length r) s, r)))"

definition re_timing ::
  "(string \<Rightarrow> (string \<times> string) option) \<Rightarrow> string \<Rightarrow> (string \<times> string) option" where
  \<comment> \<open>\<open>(T)\s*-->\s*(T)\<close> for a timestamp pattern \<open>T\<close>: the two groups\<close>
  "re_timing ts s = do {
     (g1, r) \<leftarrow> ts s;
     r \<leftarrow> re_lit ''-->'' (re_spaces r);
     (g2, _) \<leftarrow> ts (re_spaces r);
     Some (g1, g2)
   }"

definition parse_srt_block :: "string \<Rightarrow> error + segment option" where
  \<comment> \<open>The body of the loop of \<open>parse_srt\<close>; \<open>Inr None\<close> is \<open>continue\<close>.\<close>
  "parse_srt_block block =
     (let lines = split_lines (strip block) in
      if length lines < 3 then Inr None
      else
        case py_index lines 0 of Inl e \<Rightarrow> Inl e | Inr line0 \<Rightarrow>
        case py_int (strip line0) of None \<Rightarrow> Inr None | Some index \<Rightarrow>
        case py_index lines 1 of Inl e \<Rightarrow> Inl e | Inr line1 \<Rightarrow>
        case re_timing re_timestamp_text (strip line1) of None \<Rightarrow> Inr None | Some (g1, g2) \<Rightarrow>
        case parse_timestamp_srt g1 of Inl e \<Rightarrow> Inl e | Inr start \<Rightarrow>
        case parse_timestamp_srt g2 of Inl e \<Rightarrow> Inl e | Inr end \<Rightarrow>
          Inr (Some \<lparr>seg_index = Some index, seg_start = start, seg_end = end,
                     seg_text = strip (join [CHR 0x0A] (drop 2 lines)),
                     seg_original = None\<rparr>))"

fun parse_srt_loop :: "string list \<Rightarrow> segment list \<Rightarrow> error + segment list" where
  "parse_srt_loop [] segments = Inr segments"
| "parse_srt_loop (block # blocks) segments =
     (case parse_srt_block block of
        Inl e \<Rightarrow> Inl e
      | Inr None \<Rightarrow> parse_srt_loop blocks segments
      | Inr (Some seg) \<Rightarrow> parse_srt_loop blocks (segments @ [seg]))"

definition parse_srt :: "string \<Rightarrow> error + segment list" where
  "parse_srt content = parse_srt_loop (split_blocks (strip content)) []"

fun after_blank_line :: "string \<Rightarrow> string option" where
  \<comment> \<open>what follows the first two consecutive newlines, if there are any\<close>
  "after_blank_line (a # b # r) =
     (if a = CHR 0x0A \<and> b = CHR 0x0A then Some r else after_blank_line (b # r))"
| "after_blank_line _ = None"

definition remove_vtt_header :: "string \<Rightarrow> string" where
  \<comment> \<open>\<open>re.sub(r'^WEBVTT.*?\n\n', '', content, flags=re.DOTALL)\<close>\<close>
  "remove_vtt_header content =
     (if take 6 content = ''WEBVTT'' then
        (case after_blank_line (drop 6 content) of None \<Rightarrow> content | Some rest \<Rightarrow> rest)
      else content)"

fun find_timing_line :: "nat \<Rightarrow> string list \<Rightarrow> nat option" where
  \<comment> \<open>the position of the first line containing \<open>-->\<close>\<close>
  "find_timing_line i [] = None"
| "find_timing_line i (line # lines) =
     (if contains ''-->'' line then Some i else find_timing_line (Suc i) lines)"

definition parse_vtt_block :: "int \<Rightarrow> string \<Rightarrow> error + segment option" where
  \<comment> \<open>The body of the loop of \<open>parse_vtt\<close>, given the counter \<open>index\<close>.\<close>
  "parse_vtt_block index block =
     (let lines = split_lines (strip block) in
      if lines = [] then Inr None
      else
        case find_timing_line 0 lines of None \<Rightarrow> Inr None | Some time_line_idx \<Rightarrow>
        case py_index lines (int time_line_idx) of Inl e \<Rightarrow> Inl e | Inr line \<Rightarrow>
        case re_timing re_timestamp_text_vtt (strip line) of None \<Rightarrow> Inr None | Some (g1, g2) \<Rightarrow>
        case parse_timestamp_vtt g1 of Inl e \<Rightarrow> Inl e | Inr start \<Rightarrow>
        case parse_timestamp_vtt g2 of Inl e \<Rightarrow> Inl e | Inr end \<Rightarrow>
          Inr (Some \<lparr>seg_index = Some (index + 1), seg_start = start, seg_end = end,
                     seg_text = strip (join [CHR 0x0A] (drop (time_line_idx + 1) lines)),
                     seg_original = None\<rparr>))"

fun parse_vtt_loop :: "string list \<Rightarrow> int \<Rightarrow> segment list \<Rightarrow> error + segment list" where
  "parse_vtt_loop [] index segments = Inr segments"
| "parse_vtt_loop (block # blocks) index segments =
     (case parse_vtt_block index block of
        Inl e \<Rightarrow> Inl e
      | Inr None \<Rightarrow> parse_vtt_loop blocks index segments
      | Inr (Some seg) \<Rightarrow> parse_vtt_loop blocks (index + 1) (segments @ [seg]))"

definition parse_vtt :: "string \<Rightarrow> error + segment list" where
  "parse_vtt content = parse_vtt_loop (split_blocks (strip (remove_vtt_header content))) 0 []"

section \<open>Format generator\<close>

text \<open>
  \<open>generate_srt\<close> writes one block per segment to a file; the model is the text written.
  The position counter of \<open>enumerate(segments, 1)\<close> is the first argument of the loop.
\<close>

definition srt_block :: "nat \<Rightarrow> segment \<Rightarrow> string" where
  "srt_block i seg =
     str_nat i @ [CHR 0x0A] @ format_timestamp_srt (seg_start seg) @ '' --> ''
     @ format_timestamp_srt (seg_end seg) @ [CHR 0x0A] @ strip (seg_text seg)
     @ [CHR 0x0A, CHR 0x0A]"

fun generate_srt_loop :: "nat \<Rightarrow> segment list \<Rightarrow> string" where
  "generate_srt_loop i [] = []"
| "generate_srt_loop i (seg # segments) = srt_block i seg @ generate_srt_loop (Suc i) segments"

definition generate_srt :: "segment list \<Rightarrow> string" where
  "generate_srt segments = generate_srt_loop 1 segments"

section \<open>Segment editing operations\<close>

text \<open>
  The editing operations receive a list of dictionaries, put some of these very
  dictionaries into the list they return, and assign to keys of dictionaries. To keep
  track of which objects are shared, dictionaries live in a store: a \<open>heap\<close> is the list of
  all dictionaries allocated so far, a reference is a position in it, and a Python list of
  segments is a list of references. A new dictionary is appended to the heap. The list
  object \<open>segments\<close> itself is only read by the three operations, so it is a value.
\<close>

type_synonym ref = nat
type_synonym heap = "segment list"

definition new_dict :: "heap \<Rightarrow> segment \<Rightarrow> heap \<times> ref" where
  "new_dict h d = (h @ [d], length h)"

definition view :: "heap \<Rightarrow> ref list \<Rightarrow> segment list" where
  \<comment> \<open>the segments a list of references denotes in a heap\<close>
  "view h rs = map (\<lambda>r. h ! r) rs"

fun renumber :: "nat \<Rightarrow> ref list \<Rightarrow> heap \<Rightarrow> heap" where
  \<comment> \<open>\<open>for i, seg in enumerate(result): seg['index'] = i + 1\<close>\<close>
  "renumber i [] h = h"
| "renumber i (r # rs) h = renumber (Suc i) rs (h[r := (h ! r)\<lparr>seg_index := Some (int i + 1)\<rparr>])"

fun merge_loop ::
  "int list \<Rightarrow> segment \<Rightarrow> nat \<Rightarrow> ref list \<Rightarrow> heap \<times> ref list \<Rightarrow> heap \<times> ref list" where
  \<comment> \<open>The loop building \<open>result\<close> in \<open>merge_segments\<close>, at position \<open>i\<close> of \<open>segments\<close>.\<close>
  "merge_loop indices merged i [] (h, result) = (h, result)"
| "merge_loop indices merged i (seg # segments) (h, result) =
     (if int i = hd indices then
        (case new_dict h merged of
           (h', r) \<Rightarrow> merge_loop indices merged (Suc i) segments (h', result @ [r]))
      else if int i \<notin> set indices then
        merge_loop indices merged (Suc i) segments (h, result @ [seg])
      else merge_loop indices merged (Suc i) segments (h, result))"

definition merge_segments :: "heap \<Rightarrow> ref list \<Rightarrow> int list \<Rightarrow> error + heap \<times> ref list" where
  "merge_segments h segments indices0 =
     (if indices0 = [] \<or> length indices0 < 2 then Inr (h, segments)
      else
        let indices = sort indices0 in
        case py_index segments (hd indices) of Inl e \<Rightarrow> Inl e | Inr first \<Rightarrow>
        case py_index segments (last indices) of Inl e \<Rightarrow> Inl e | Inr final \<Rightarrow>
        case index_all segments indices of Inl e \<Rightarrow> Inl e | Inr selected \<Rightarrow>
          let merged = \<lparr>seg_index = None,
                        seg_start = seg_start (h ! first),
                        seg_end = seg_end (h ! final),
                        seg_text = join '' '' (map (\<lambda>r. seg_text (h ! r)) selected),
                        seg_original = None\<rparr>
          in case merge_loop indices merged 0 segments (h, []) of
               (h', result) \<Rightarrow> Inr (renumber 0 result h', result))"

text \<open>
  In \<open>split_segment\<close> the offset \<open>split_char\<close> is computed only when
  \<open>start < split_position < end\<close>; then \<open>0 < ratio < 1\<close> and \<open>int(len(text) * ratio)\<close> is not
  negative, so that the slices \<open>text[:split_char]\<close> and \<open>text[split_char:]\<close> are \<open>take\<close> and
  \<open>drop\<close>.
\<close>

definition split_offset :: "string \<Rightarrow> real \<Rightarrow> nat" where
  \<comment> \<open>\<open>split_char\<close> after the adjustment to a space\<close>
  "split_offset text ratio =
     (let split_char = nat (int_of_float (real (length text) * ratio));
          space_pos = rfind text CHR '' '' split_char
      in if space_pos > 0 then nat space_pos else split_char)"

definition split_segment :: "heap \<Rightarrow> ref list \<Rightarrow> int \<Rightarrow> real \<Rightarrow> error + heap \<times> ref list" where
  "split_segment h segments index split_position =
     (if index < 0 \<or> index \<ge> int (length segments) then Inr (h, segments)
      else
        case py_index segments index of Inl e \<Rightarrow> Inl e | Inr r \<Rightarrow>
        let seg = h ! r in
        if split_position \<le> seg_start seg \<or> split_position \<ge> seg_end seg then Inr (h, segments)
        else
          let text = seg_text seg;
              ratio = (split_position - seg_start seg) / (seg_end seg - seg_start seg);
              split_char = split_offset text ratio;
              text1 = strip (take split_char text);
              text2 = strip (drop split_char text);
              (h1, r1) = new_dict h \<lparr>seg_index = None, seg_start = seg_start seg,
                                     seg_end = split_position, seg_text = text1,
                                     seg_original = None\<rparr>;
              (h2, r2) = new_dict h1 \<lparr>seg_index = None, seg_start = split_position,
                                      seg_end = seg_end seg, seg_text = text2,
                                      seg_original = None\<rparr>;
              result = take (nat index) segments @ [r1] @ [r2] @ drop (nat index + 1) segments
          in Inr (renumber 0 result h2, result))"

fun copy_dicts :: "ref list \<Rightarrow> heap \<times> ref list \<Rightarrow> heap \<times> ref list" where
  \<comment> \<open>\<open>[dict(seg) for seg in segments]\<close>\<close>
  "copy_dicts [] (h, result) = (h, result)"
| "copy_dicts (r # rs) (h, result) =
     (case new_dict h (h ! r) of (h', r') \<Rightarrow> copy_dicts rs (h', result @ [r']))"

definition adjust_timing ::
  "heap \<Rightarrow> ref list \<Rightarrow> int \<Rightarrow> real \<Rightarrow> real \<Rightarrow> error + heap \<times> ref list" where
  "adjust_timing h segments index start_delta end_delta =
     (if index < 0 \<or> index \<ge> int (length segments) then Inr (h, segments)
      else
        case copy_dicts segments (h, []) of (h', result) \<Rightarrow>
        case py_index result index of Inl e \<Rightarrow> Inl e | Inr r \<Rightarrow>
          let seg = h' ! r;
              new_start = max 0 (seg_start seg + start_delta);
              new_end = max (new_start + 0.1) (seg_end seg + end_delta)
          in Inr (h'[r := seg\<lparr>seg_start := new_start, seg_end := new_end\<rparr>], result))"



section \<open>Observations and example data\<close>

text \<open>Two segments have the same content when they agree on everything but the index.\<close>

definition same_content :: "segment \<Rightarrow> segment \<Rightarrow> bool" where
  "same_content a b \<longleftrightarrow>
     seg_start a = seg_start b \<and> seg_end a = seg_end b \<and> seg_text a = seg_text b
     \<and> seg_original a = seg_original b"

text \<open>
  What a caller sees after an operation: the sequence it got back, and the sequence it
  passed in, both read in the heap the operation left behind.
\<close>

fun result_view :: "error + heap \<times> ref list \<Rightarrow> error + segment list" where
  "result_view (Inl e) = Inl e"
| "result_view (Inr (h, result)) = Inr (view h result)"

fun input_after :: "ref list \<Rightarrow> error + heap \<times> ref list \<Rightarrow> error + segment list" where
  "input_after segments (Inl e) = Inl e"
| "input_after segments (Inr (h, result)) = Inr (view h segments)"

text \<open>
  A heap of three translated segments, numbered \<open>5, 6, 7\<close> as a parser would leave them for a
  file whose numbering starts at five; they are the sequence \<open>[0, 1, 2]\<close>. The third lasts
  \<open>0.05\<close> seconds.
\<close>

definition example_heap :: heap where
  "example_heap =
     [\<lparr>seg_index = Some 5, seg_start = 1, seg_end = 3.5, seg_text = ''Hello world'',
       seg_original = Some ''Hallo Welt''\<rparr>,
      \<lparr>seg_index = Some 6, seg_start = 3.5, seg_end = 5, seg_text = ''Bye'',
       seg_original = Some ''Tschau''\<rparr>,
      \<lparr>seg_index = Some 7, seg_start = 5, seg_end = 5.05, seg_text = ''The quick brown fox'',
       seg_original = Some ''Der Fuchs''\<rparr>]"

text \<open>The segment a block of an SRT document contributes, if any.\<close>

definition srt_block_segment :: "string \<Rightarrow> segment option" where
  "srt_block_segment block = (case parse_srt_block block of Inl e \<Rightarrow> None | Inr x \<Rightarrow> x)"

section \<open>Properties of the timestamp codec\<close>

subsection \<open>Digits and padded numbers\<close>



lemma digit_not_space: "is_digit c \<Longrightarrow> \<not> is_space c"
  by (auto simp: is_digit_def is_space_def)

lemma digit_not_sign: "is_digit c \<Longrightarrow> c \<noteq> CHR ''-'' \<and> c \<noteq> CHR ''+'' \<and> c \<noteq> CHR ''_''"
  by (auto simp: is_digit_def)








lemma strip_id:
  assumes "s \<noteq> []" "\<not> is_space (hd s)" "\<not> is_space (last s)"
  shows "strip s = s"
proof -
  have a: "dropWhile is_space s = s" using assms by (simp add: dropWhile_eq_self_iff)
  have b: "dropWhile is_space (rev s) = rev s" using assms by (simp add: dropWhile_eq_self_iff hd_rev)
  show ?thesis by (simp add: strip_def a b)
qed




















section \<open>Properties of the editing operations\<close>

lemma length_renumber: "length (renumber i rs h) = length h"
  by (induction rs arbitrary: i h) simp_all

lemma renumber_other: "r \<notin> set rs \<Longrightarrow> renumber i rs h ! r = h ! r"
  by (induction rs arbitrary: i h) auto

lemma same_content_refl: "same_content a a"
  by (simp add: same_content_def)

lemma same_content_index: "same_content (a\<lparr>seg_index := x\<rparr>) b = same_content a b"
  by (simp add: same_content_def)

lemma renumber_content: "same_content (renumber i rs h ! r) (h ! r)"
proof (induction rs arbitrary: i h)
  case Nil
  show ?case by (simp add: same_content_refl)
next
  case (Cons a rs)
  have "same_content (renumber (Suc i) rs (h[a := (h ! a)\<lparr>seg_index := Some (int i + 1)\<rparr>]) ! r)
          (h[a := (h ! a)\<lparr>seg_index := Some (int i + 1)\<rparr>] ! r)"
    by (rule Cons.IH)
  moreover have "same_content (h[a := (h ! a)\<lparr>seg_index := Some (int i + 1)\<rparr>] ! r) (h ! r)"
    by (cases "a < length h"; cases "r = a")
       (simp_all add: same_content_index same_content_refl list_update_beyond)
  ultimately show ?case by (simp add: same_content_def)
qed

lemma renumber_index:
  "distinct rs \<Longrightarrow> \<forall>r\<in>set rs. r < length h \<Longrightarrow> k < length rs \<Longrightarrow>
     seg_index (renumber i rs h ! (rs ! k)) = Some (int (i + k) + 1)"
proof (induction rs arbitrary: i h k)
  case Nil
  then show ?case by simp
next
  case (Cons a rs)
  let ?h = "h[a := (h ! a)\<lparr>seg_index := Some (int i + 1)\<rparr>]"
  show ?case
  proof (cases k)
    case 0
    have "renumber (Suc i) rs ?h ! a = ?h ! a"
      using Cons.prems(1) by (intro renumber_other) simp
    then show ?thesis using 0 Cons.prems(2) by simp
  next
    case (Suc k')
    have "seg_index (renumber (Suc i) rs ?h ! (rs ! k')) = Some (int (Suc i + k') + 1)"
      using Cons.prems Suc by (intro Cons.IH) simp_all
    then show ?thesis using Suc by simp
  qed
qed

lemma merge_loop_no_match:
  "(\<And>k. i \<le> k \<Longrightarrow> k < i + length segs \<Longrightarrow> int k \<noteq> hd idxs) \<Longrightarrow>
   merge_loop idxs m i segs (h, res) = (h, res @ nths segs {j. int (i + j) \<notin> set idxs})"
proof (induction segs arbitrary: i res)
  case Nil
  show ?case by simp
next
  case (Cons seg segs)
  have a: "int i \<noteq> hd idxs" using Cons.prems [of i] by simp
  have b: "\<And>res'. merge_loop idxs m (Suc i) segs (h, res')
      = (h, res' @ nths segs {j. int (Suc i + j) \<notin> set idxs})"
    using Cons.prems by (intro Cons.IH) simp_all
  show ?case
    by (simp add: a b nths_Cons add_ac)
qed

lemma merge_loop_match:
  "i \<le> i0 \<Longrightarrow> i0 < i + length segs \<Longrightarrow> hd idxs = int i0 \<Longrightarrow>
   merge_loop idxs m i segs (h, res) =
     (h @ [m], res @ nths segs {j. i + j < i0 \<and> int (i + j) \<notin> set idxs} @ [length h]
               @ nths segs {j. i0 < i + j \<and> int (i + j) \<notin> set idxs})"
proof (induction segs arbitrary: i res)
  case Nil
  then show ?case by simp
next
  case (Cons seg segs)
  show ?case
  proof (cases "i = i0")
    case True
    have "\<And>res'. merge_loop idxs m (Suc i) segs (h @ [m], res')
      = (h @ [m], res' @ nths segs {j. int (Suc i + j) \<notin> set idxs})"
      using Cons.prems True by (intro merge_loop_no_match) simp
    then show ?thesis using True Cons.prems
      by (simp add: new_dict_def nths_Cons add_ac)
  next
    case False
    then have lt: "Suc i \<le> i0" using Cons.prems by simp
    have ne: "int i \<noteq> hd idxs" using False Cons.prems by simp
    have b: "\<And>res'. merge_loop idxs m (Suc i) segs (h, res') =
     (h @ [m], res' @ nths segs {j. Suc i + j < i0 \<and> int (Suc i + j) \<notin> set idxs} @ [length h]
               @ nths segs {j. i0 < Suc i + j \<and> int (Suc i + j) \<notin> set idxs})"
      using Cons.prems lt by (intro Cons.IH) simp_all
    have c: "\<not> i0 < i" using Cons.prems by simp
    have d: "i < i0" using lt by simp
    show ?thesis
      by (simp add: ne b nths_Cons c d add_ac)
  qed
qed

lemma py_index_valid: "0 \<le> i \<Longrightarrow> i < int (length xs) \<Longrightarrow> py_index xs i = Inr (xs ! nat i)"
  by (simp add: py_index_def)

lemma index_all_valid:
  "\<forall>i\<in>set js. 0 \<le> i \<and> i < int (length xs) \<Longrightarrow> index_all xs js = Inr (map (\<lambda>i. xs ! nat i) js)"
  by (induction js) (simp_all add: py_index_valid)

lemma hd_sorted_Min: "sorted xs \<Longrightarrow> xs \<noteq> [] \<Longrightarrow> hd xs = Min (set xs)"
  by (cases xs) (auto intro: Min_eqI [symmetric])

lemma last_sorted_Max: "sorted xs \<Longrightarrow> xs \<noteq> [] \<Longrightarrow> last xs = Max (set xs)"
proof -
  assume a: "sorted xs" "xs \<noteq> []"
  then have "\<forall>x\<in>set xs. x \<le> last xs"
    by (induction xs) (auto simp: )
  then show ?thesis using a by (intro Max_eqI [symmetric]) auto
qed

lemma sort_not_Nil: "xs \<noteq> [] \<Longrightarrow> sort xs \<noteq> []"
  by (metis set_empty set_sort)

lemma hd_sort_Min: "xs \<noteq> [] \<Longrightarrow> hd (sort xs) = Min (set xs)"
  using hd_sorted_Min [of "sort xs"] by (simp add: sort_not_Nil)

lemma last_sort_Max: "xs \<noteq> [] \<Longrightarrow> last (sort xs) = Max (set xs)"
  using last_sorted_Max [of "sort xs"] by (simp add: sort_not_Nil)

lemma merge_segments_valid:
  fixes h :: heap and segs :: "ref list" and idxs :: "int list"
  assumes two: "2 \<le> length idxs"
    and valid: "\<forall>i\<in>set idxs. 0 \<le> i \<and> i < int (length segs)"
  defines "first \<equiv> nat (Min (set idxs))" and "final \<equiv> nat (Max (set idxs))"
  defines "merged \<equiv> \<lparr>seg_index = None, seg_start = seg_start (h ! (segs ! first)),
      seg_end = seg_end (h ! (segs ! final)),
      seg_text = join '' '' (map (\<lambda>i. seg_text (h ! (segs ! nat i))) (sort idxs)),
      seg_original = None\<rparr>"
  defines "res \<equiv> take first segs @ [length h] @ nths segs {k. first < k \<and> int k \<notin> set idxs}"
  shows "merge_segments h segs idxs = Inr (renumber 0 res (h @ [merged]), res)"
    and "first < length segs" and "final < length segs"
proof -
  have ne: "idxs \<noteq> []" using two by auto
  have fin: "finite (set idxs)" "set idxs \<noteq> {}" using ne by auto
  have minin: "Min (set idxs) \<in> set idxs" and maxin: "Max (set idxs) \<in> set idxs"
    using fin by (auto intro: Min_in Max_in)
  have min0: "0 \<le> Min (set idxs)" "Min (set idxs) < int (length segs)"
    using valid minin by auto
  have max0: "0 \<le> Max (set idxs)" "Max (set idxs) < int (length segs)"
    using valid maxin by auto
  show f: "first < length segs" using min0 by (simp add: first_def nat_less_iff)
  show "final < length segs" using max0 by (simp add: final_def nat_less_iff)
  have hd: "hd (sort idxs) = int first" using min0 by (simp add: hd_sort_Min ne first_def)
  have p1: "py_index segs (hd (sort idxs)) = Inr (segs ! first)"
    using min0 by (simp add: hd_sort_Min ne py_index_valid first_def)
  have p2: "py_index segs (last (sort idxs)) = Inr (segs ! final)"
    using max0 by (simp add: last_sort_Max ne py_index_valid final_def)
  have p3: "index_all segs (sort idxs) = Inr (map (\<lambda>i. segs ! nat i) (sort idxs))"
    using valid by (intro index_all_valid) simp
  have before: "{j. j < first \<and> int j \<notin> set idxs} = {..<first}"
  proof -
    have "int j \<notin> set idxs" if "j < first" for j
    proof
      assume "int j \<in> set idxs"
      then have "Min (set idxs) \<le> int j" by (simp add: )
      then show False using that by (simp add: first_def)
    qed
    then show ?thesis by auto
  qed
  have loop: "merge_loop (sort idxs) merged 0 segs (h, []) = (h @ [merged], res)"
    using merge_loop_match [of 0 first segs "sort idxs" merged h "[]"] f hd
    by (simp add: before res_def)
  have m: "\<lparr>seg_index = None, seg_start = seg_start (h ! (segs ! first)),
      seg_end = seg_end (h ! (segs ! final)),
      seg_text = join '' '' (map (\<lambda>r. seg_text (h ! r)) (map (\<lambda>i. segs ! nat i) (sort idxs))),
      seg_original = None\<rparr> = merged"
    by (simp add: merged_def comp_def)
  have c: "\<not> (idxs = [] \<or> length idxs < 2)" using two ne by simp
  show "merge_segments h segs idxs = Inr (renumber 0 res (h @ [merged]), res)"
    unfolding merge_segments_def Let_def p1 p2 p3 sum.case m loop
    by (simp only: c if_False prod.case)
qed

lemma inj_on_nat_valid: "\<forall>i\<in>S. 0 \<le> i \<and> i < (m::int) \<Longrightarrow> inj_on nat S"
proof (rule inj_onI)
  fix x y assume a: "\<forall>i\<in>S. 0 \<le> i \<and> i < m" "x \<in> S" "y \<in> S" "nat x = nat y"
  then have "0 \<le> x" "0 \<le> y" by auto
  with a(4) show "x = y" by simp
qed

lemma nat_selected_range:
  fixes idxs :: "int list"
  assumes "\<forall>i\<in>set idxs. 0 \<le> i \<and> i < int n"
  shows "nat ` set idxs \<subseteq> {nat (Min (set idxs))..<n}"
proof
  fix k assume "k \<in> nat ` set idxs"
  then obtain i where i: "i \<in> set idxs" "k = nat i" by auto
  then have "Min (set idxs) \<le> i" by simp
  then have "nat (Min (set idxs)) \<le> nat i" by (rule nat_mono)
  moreover have "nat i < n" using assms i by auto
  ultimately show "k \<in> {nat (Min (set idxs))..<n}" using i by simp
qed

lemma card_unselected_after:
  fixes idxs :: "int list"
  assumes dist: "distinct idxs" and ne: "idxs \<noteq> []"
    and valid: "\<forall>i\<in>set idxs. 0 \<le> i \<and> i < int n"
  defines "first \<equiv> nat (Min (set idxs))"
  shows "card {k. k < n \<and> first < k \<and> int k \<notin> set idxs} = n - first - length idxs"
proof -
  let ?A = "nat ` set idxs"
  have inj: "inj_on nat (set idxs)" using valid by (rule inj_on_nat_valid)
  have cardA: "card ?A = length idxs"
    using dist inj by (simp add: card_image distinct_card)
  have minin: "Min (set idxs) \<in> set idxs" using ne by (intro Min_in) auto
  have firstA: "first \<in> ?A" using minin by (auto simp: first_def)
  have mem: "int k \<in> set idxs \<longleftrightarrow> k \<in> ?A" for k
  proof
    assume "int k \<in> set idxs"
    then have "nat (int k) \<in> ?A" by (rule imageI)
    then show "k \<in> ?A" by simp
  next
    assume "k \<in> ?A"
    then obtain i where i: "i \<in> set idxs" "k = nat i" by auto
    then have "0 \<le> i" using valid by auto
    then show "int k \<in> set idxs" using i by simp
  qed
  have sub: "?A \<subseteq> {first..<n}"
    unfolding first_def using valid by (rule nat_selected_range)
  have eq: "{k. k < n \<and> first < k \<and> int k \<notin> set idxs} = {first..<n} - ?A"
    using firstA by (auto simp: mem)
  have "card ({first..<n} - ?A) = card {first..<n} - card ?A"
    using sub by (intro card_Diff_subset) (auto intro: finite_subset)
  then show ?thesis by (simp add: eq cardA)
qed

lemma merge_result_length:
  fixes idxs :: "int list" and segs :: "ref list"
  assumes dist: "distinct idxs" and two: "2 \<le> length idxs"
    and valid: "\<forall>i\<in>set idxs. 0 \<le> i \<and> i < int (length segs)"
  defines "first \<equiv> nat (Min (set idxs))"
  shows "length (take first segs @ [a] @ nths segs {k. first < k \<and> int k \<notin> set idxs})
       = length segs - (length idxs - 1)"
proof -
  have ne: "idxs \<noteq> []" using two by auto
  have inj: "inj_on nat (set idxs)" using valid by (rule inj_on_nat_valid)
  have "nat ` set idxs \<subseteq> {first..<length segs}"
    unfolding first_def using valid by (rule nat_selected_range)
  then have "card (nat ` set idxs) \<le> card {first..<length segs}"
    by (intro card_mono) auto
  then have le: "length idxs \<le> length segs - first"
    using dist inj by (simp add: card_image distinct_card)
  have "length (nths segs {k. first < k \<and> int k \<notin> set idxs})
      = card {k. k < length segs \<and> first < k \<and> int k \<notin> set idxs}"
    by (simp add: length_nths conj_assoc)
  also have "\<dots> = length segs - first - length idxs"
    unfolding first_def by (rule card_unselected_after [OF dist ne valid])
  finally show ?thesis using le two by simp
qed

lemma copy_dicts_valid:
  "\<forall>r\<in>set segs. r < length h \<Longrightarrow>
   copy_dicts segs (h, res) = (h @ map (\<lambda>r. h ! r) segs, res @ [length h..<length h + length segs])"
proof (induction segs arbitrary: h res)
  case Nil
  show ?case by simp
next
  case (Cons a segs)
  have a: "\<forall>r\<in>set segs. r < length (h @ [h ! a])" using Cons.prems by auto
  have b: "map (\<lambda>x. (h @ [h ! a]) ! x) segs = map (\<lambda>x. h ! x) segs"
    using Cons.prems by (intro map_cong) (auto simp: nth_append)
  have c: "[length h..<length h + length (a # segs)]
      = length h # [length (h @ [h ! a])..<length (h @ [h ! a]) + length segs]"
    by (subst upt_rec) simp
  have "copy_dicts (a # segs) (h, res) = copy_dicts segs (h @ [h ! a], res @ [length h])"
    by (simp add: new_dict_def)
  also have "\<dots> = ((h @ [h ! a]) @ map (\<lambda>x. (h @ [h ! a]) ! x) segs,
      (res @ [length h]) @ [length (h @ [h ! a])..<length (h @ [h ! a]) + length segs])"
    by (rule Cons.IH [OF a])
  also have "\<dots> = (h @ map (\<lambda>r. h ! r) (a # segs), res @ [length h..<length h + length (a # segs)])"
    unfolding b c by simp
  finally show ?case .
qed

lemma adjust_timing_valid:
  fixes h :: heap and start_delta end_delta :: real
  assumes refs: "\<forall>r\<in>set segs. r < length h" and i: "i < length segs"
  defines "old \<equiv> h ! (segs ! i)"
  defines "new_start \<equiv> max 0 (seg_start old + start_delta)"
  defines "res \<equiv> [length h..<length h + length segs]"
  shows "adjust_timing h segs (int i) start_delta end_delta =
    Inr ((h @ map (\<lambda>r. h ! r) segs)
           [length h + i := old\<lparr>seg_start := new_start,
                                 seg_end := max (new_start + 0.1) (seg_end old + end_delta)\<rparr>],
         res)"
proof -
  have c: "copy_dicts segs (h, []) = (h @ map (\<lambda>r. h ! r) segs, res)"
    using copy_dicts_valid [OF refs, of "[]"] by (simp add: res_def)
  have p: "py_index res (int i) = Inr (length h + i)"
    using i by (simp add: py_index_valid res_def)
  have o: "(h @ map (\<lambda>r. h ! r) segs) ! (length h + i) = old"
    using i by (simp add: old_def)
  show ?thesis
    using i by (simp add: adjust_timing_def c p o Let_def new_start_def) (simp add: old_def)
qed

lemma split_segment_valid:
  fixes h :: heap and t :: real
  assumes i: "i < length segs"
    and t: "seg_start (h ! (segs ! i)) < t" "t < seg_end (h ! (segs ! i))"
  defines "old \<equiv> h ! (segs ! i)"
  defines "k \<equiv> split_offset (seg_text old) ((t - seg_start old) / (seg_end old - seg_start old))"
  defines "d1 \<equiv> \<lparr>seg_index = None, seg_start = seg_start old, seg_end = t,
                    seg_text = strip (take k (seg_text old)), seg_original = None\<rparr>"
  defines "d2 \<equiv> \<lparr>seg_index = None, seg_start = t, seg_end = seg_end old,
                    seg_text = strip (drop k (seg_text old)), seg_original = None\<rparr>"
  defines "res \<equiv> take i segs @ [length h, Suc (length h)] @ drop (Suc i) segs"
  shows "split_segment h segs (int i) t = Inr (renumber 0 res (h @ [d1, d2]), res)"
proof -
  have p: "py_index segs (int i) = Inr (segs ! i)" using i by (simp add: py_index_valid)
  have g: "\<not> (t \<le> seg_start old \<or> seg_end old \<le> t)" using t by (simp add: old_def)
  show ?thesis
    using i g
    by (simp add: split_segment_def p Let_def new_dict_def old_def [symmetric] k_def [symmetric]
        d1_def d2_def res_def)
qed





lemma view_nth: "k < length rs \<Longrightarrow> view h rs ! k = h ! (rs ! k)"
  by (simp add: view_def)

lemma renumber_view_index:
  assumes "distinct rs" "\<forall>r\<in>set rs. r < length h"
  shows "map seg_index (view (renumber 0 rs h) rs) = map (\<lambda>k. Some (int k + 1)) [0..<length rs]"
proof (rule nth_equalityI)
  show "length (map seg_index (view (renumber 0 rs h) rs)) = length (map (\<lambda>k. Some (int k + 1)) [0..<length rs])"
    by (simp add: view_def)
next
  fix k assume "k < length (map seg_index (view (renumber 0 rs h) rs))"
  then have k: "k < length rs" by (simp add: view_def)
  then show "map seg_index (view (renumber 0 rs h) rs) ! k = map (\<lambda>k. Some (int k + 1)) [0..<length rs] ! k"
    using renumber_index [OF assms k, of 0] by (simp add: view_def)
qed

lemma merge_result_distinct:
  assumes "distinct segs" "\<forall>r\<in>set segs. r < length h"
  shows "distinct (take first segs @ [length h] @ nths segs {k. first < k \<and> P k})"
proof -
  have a: "length h \<notin> set segs" using assms(2) by auto
  have "set (take first segs) \<inter> set (nths segs {k. first < k \<and> P k}) = {}"
  proof (rule ccontr)
    assume "set (take first segs) \<inter> set (nths segs {k. first < k \<and> P k}) \<noteq> {}"
    then obtain x where x: "x \<in> set (take first segs)" "x \<in> set (nths segs {k. first < k \<and> P k})"
      by auto
    from x(1) obtain j where j: "j < first" "j < length segs" "x = segs ! j"
      by (auto simp: in_set_conv_nth)
    from x(2) obtain k where k: "k < length segs" "first < k" "x = segs ! k"
      by (auto simp: set_nths)
    have "j = k" using assms(1) j k by (simp add: nth_eq_iff_index_eq)
    then show False using j k by simp
  qed
  moreover have "length h \<notin> set (take first segs)" "length h \<notin> set (nths segs {k. first < k \<and> P k})"
    using a by (auto dest: in_set_takeD in_set_nthsD)
  ultimately show ?thesis using assms(1) by simp
qed

lemma split_result_distinct:
  assumes "distinct segs" "\<forall>r\<in>set segs. r < length h"
  shows "distinct (take i segs @ [length h, Suc (length h)] @ drop (Suc i) segs)"
proof -
  have a: "length h \<notin> set segs" "Suc (length h) \<notin> set segs" using assms(2) by auto
  have "set (take i segs) \<inter> set (drop (Suc i) segs) = {}"
    using assms(1) by (intro set_take_disj_set_drop_if_distinct) simp_all
  moreover have "length h \<notin> set (take i segs)" "length h \<notin> set (drop (Suc i) segs)"
    "Suc (length h) \<notin> set (take i segs)" "Suc (length h) \<notin> set (drop (Suc i) segs)"
    using a by (auto dest: in_set_takeD in_set_dropD)
  ultimately show ?thesis using assms(1) by simp
qed


lemma merged_cell:
  fixes h :: heap and P :: "nat \<Rightarrow> bool" and m :: segment
  assumes refs: "\<forall>r\<in>set segs. r < length h" and f: "first < length segs"
  defines "res \<equiv> take first segs @ [length h] @ nths segs {k. first < k \<and> P k}"
  shows "res ! first = length h"
    and "take first res = take first segs"
    and "drop (Suc first) res = nths segs {k. first < k \<and> P k}"
    and "same_content (renumber 0 res (h @ [m]) ! (res ! first)) m"
    and "\<forall>r<length h. same_content (renumber 0 res (h @ [m]) ! r) (h ! r)"
proof -
  have l: "length (take first segs) = first" using f by simp
  show a: "res ! first = length h" using l by (simp add: res_def nth_append)
  show "take first res = take first segs" using l by (simp add: res_def)
  show "drop (Suc first) res = nths segs {k. first < k \<and> P k}" using l by (simp add: res_def)
  have "same_content (renumber 0 res (h @ [m]) ! length h) ((h @ [m]) ! length h)"
    by (rule renumber_content)
  then show "same_content (renumber 0 res (h @ [m]) ! (res ! first)) m" by (simp add: a)
  show "\<forall>r<length h. same_content (renumber 0 res (h @ [m]) ! r) (h ! r)"
  proof (intro allI impI)
    fix r assume "r < length h"
    then have "(h @ [m]) ! r = h ! r" by (simp add: nth_append)
    then show "same_content (renumber 0 res (h @ [m]) ! r) (h ! r)"
      using renumber_content [of 0 res "h @ [m]" r] by simp
  qed
qed

text \<open>
  Claim C3. Let \<open>idxs\<close> hold at least two distinct positions of \<open>segs\<close>, in any order, and
  let \<open>first\<close> be the smallest and \<open>final\<close> the largest of them. Then \<open>merge_segments\<close>
  returns a sequence that is shorter by the number of selected positions minus one. Before
  position \<open>first\<close> it is the input sequence; at position \<open>first\<close> stands the merged
  segment, whose start is that of segment \<open>first\<close>, whose end is that of segment \<open>final\<close>
  and whose text is the selected texts in ascending position joined by single spaces; after
  it come the segments at the positions that were not selected, in their order. Start, end,
  text and original of every segment that existed before the call are what they were.
\<close>

theorem merge_segments_replaces_selected:
  fixes h :: heap and segs :: "ref list" and idxs :: "int list"
  assumes refs: "\<forall>r\<in>set segs. r < length h"
    and two: "2 \<le> length idxs" and dist: "distinct idxs"
    and valid: "\<forall>i\<in>set idxs. 0 \<le> i \<and> i < int (length segs)"
  defines "first \<equiv> nat (Min (set idxs))" and "final \<equiv> nat (Max (set idxs))"
  shows "\<exists>h' res. merge_segments h segs idxs = Inr (h', res)
      \<and> length res = length segs - (length idxs - 1)
      \<and> take first res = take first segs
      \<and> drop (Suc first) res = nths segs {k. first < k \<and> int k \<notin> set idxs}
      \<and> seg_start (h' ! (res ! first)) = seg_start (h ! (segs ! first))
      \<and> seg_end (h' ! (res ! first)) = seg_end (h ! (segs ! final))
      \<and> seg_text (h' ! (res ! first))
          = join '' '' (map (\<lambda>i. seg_text (h ! (segs ! nat i))) (sort idxs))
      \<and> (\<forall>r<length h. same_content (h' ! r) (h ! r))"
proof -
  let ?m = "\<lparr>seg_index = None, seg_start = seg_start (h ! (segs ! first)),
      seg_end = seg_end (h ! (segs ! final)),
      seg_text = join '' '' (map (\<lambda>i. seg_text (h ! (segs ! nat i))) (sort idxs)),
      seg_original = None\<rparr>"
  let ?res = "take first segs @ [length h] @ nths segs {k. first < k \<and> int k \<notin> set idxs}"
  note mv = merge_segments_valid(1) [OF two valid, of h, folded first_def final_def]
    merge_segments_valid(2) [OF two valid, folded first_def]
  note mc = merged_cell [OF refs mv(2), where P = "\<lambda>k. int k \<notin> set idxs"]
  have len: "length ?res = length segs - (length idxs - 1)"
    unfolding first_def by (rule merge_result_length [OF dist two valid])
  have "seg_start (renumber 0 ?res (h @ [?m]) ! (?res ! first)) = seg_start ?m"
    "seg_end (renumber 0 ?res (h @ [?m]) ! (?res ! first)) = seg_end ?m"
    "seg_text (renumber 0 ?res (h @ [?m]) ! (?res ! first)) = seg_text ?m"
    using mc(4) [of ?m] by (simp_all add: same_content_def)
  then show ?thesis
    using mv(1) len mc(2,3) mc(5) [of ?m] by simp
qed

text \<open>
  Claim C10. When every selected segment carries a non-empty \<open>original\<close>, the merged segment
  still has no \<open>original\<close> key: it is built from start, end and text only.
\<close>

theorem merge_segments_drops_original:
  fixes h :: heap and segs :: "ref list" and idxs :: "int list"
  assumes refs: "\<forall>r\<in>set segs. r < length h"
    and two: "2 \<le> length idxs" and dist: "distinct idxs"
    and valid: "\<forall>i\<in>set idxs. 0 \<le> i \<and> i < int (length segs)"
    and orig: "\<forall>i\<in>set idxs. \<exists>s. seg_original (h ! (segs ! nat i)) = Some s \<and> s \<noteq> []"
  shows "\<exists>h' res. merge_segments h segs idxs = Inr (h', res)
      \<and> seg_original (h' ! (res ! nat (Min (set idxs)))) = None"
proof -
  let ?first = "nat (Min (set idxs))" and ?final = "nat (Max (set idxs))"
  let ?m = "\<lparr>seg_index = None, seg_start = seg_start (h ! (segs ! ?first)),
      seg_end = seg_end (h ! (segs ! ?final)),
      seg_text = join '' '' (map (\<lambda>i. seg_text (h ! (segs ! nat i))) (sort idxs)),
      seg_original = None\<rparr>"
  let ?res = "take ?first segs @ [length h] @ nths segs {k. ?first < k \<and> int k \<notin> set idxs}"
  note mv = merge_segments_valid(1) [OF two valid, of h] merge_segments_valid(2) [OF two valid]
  note mc = merged_cell [OF refs mv(2), where P = "\<lambda>k. int k \<notin> set idxs"]
  have "seg_original (renumber 0 ?res (h @ [?m]) ! (?res ! ?first)) = seg_original ?m"
    using mc(4) [of ?m] by (simp add: same_content_def)
  then show ?thesis using mv(1) by simp
qed



lemma adjust_timing_cells:
  fixes h :: heap and start_delta end_delta :: real
  assumes refs: "\<forall>r\<in>set segs. r < length h" and i: "i < length segs"
  shows "\<exists>h' res. adjust_timing h segs (int i) start_delta end_delta = Inr (h', res)
      \<and> length res = length segs
      \<and> h' ! (res ! i) = (h ! (segs ! i))
           \<lparr>seg_start := max 0 (seg_start (h ! (segs ! i)) + start_delta),
            seg_end := max (max 0 (seg_start (h ! (segs ! i)) + start_delta) + 0.1)
                           (seg_end (h ! (segs ! i)) + end_delta)\<rparr>
      \<and> (\<forall>k<length segs. k \<noteq> i \<longrightarrow> h' ! (res ! k) = h ! (segs ! k))
      \<and> (\<forall>r<length h. h' ! r = h ! r)"
proof -
  let ?res = "[length h..<length h + length segs]"
  let ?new = "(h ! (segs ! i))
           \<lparr>seg_start := max 0 (seg_start (h ! (segs ! i)) + start_delta),
            seg_end := max (max 0 (seg_start (h ! (segs ! i)) + start_delta) + 0.1)
                           (seg_end (h ! (segs ! i)) + end_delta)\<rparr>"
  let ?h' = "(h @ map (\<lambda>r. h ! r) segs) [length h + i := ?new]"
  have a: "adjust_timing h segs (int i) start_delta end_delta = Inr (?h', ?res)"
    by (rule adjust_timing_valid [OF refs i])
  have b: "?h' ! (?res ! i) = ?new" using i by simp
  have c: "\<forall>k<length segs. k \<noteq> i \<longrightarrow> ?h' ! (?res ! k) = h ! (segs ! k)"
    by (simp add: nth_append)
  have d: "\<forall>r<length h. ?h' ! r = h ! r" by (simp add: nth_append)
  show ?thesis
    apply (rule exI [of _ ?h'], rule exI [of _ ?res])
    using a b c d by (simp only: length_upt) simp
qed


text \<open>
  Claim C7, as amended. On a sequence of distinct dictionaries, a merge of at least two
  valid positions and a split at a valid position and time return a sequence whose index
  fields are \<open>1, \<dots>, N\<close> in order. \<open>adjust_timing\<close> at a valid position does not renumber:
  the index fields of the result are those of the input.
\<close>

theorem structural_edits_renumber:
  fixes h :: heap and segs :: "ref list" and idxs :: "int list" and t start_delta end_delta :: real
  assumes refs: "\<forall>r\<in>set segs. r < length h" and dist: "distinct segs"
  shows "(2 \<le> length idxs \<and> (\<forall>j\<in>set idxs. 0 \<le> j \<and> j < int (length segs)) \<longrightarrow>
          (\<exists>h' res. merge_segments h segs idxs = Inr (h', res)
             \<and> map seg_index (view h' res) = map (\<lambda>k. Some (int k + 1)) [0..<length res]))
       \<and> (i < length segs \<and> seg_start (h ! (segs ! i)) < t \<and> t < seg_end (h ! (segs ! i)) \<longrightarrow>
          (\<exists>h' res. split_segment h segs (int i) t = Inr (h', res)
             \<and> map seg_index (view h' res) = map (\<lambda>k. Some (int k + 1)) [0..<length res]))
       \<and> (i < length segs \<longrightarrow>
          (\<exists>h' res. adjust_timing h segs (int i) start_delta end_delta = Inr (h', res)
             \<and> map seg_index (view h' res) = map seg_index (view h segs)))"
proof (intro conjI impI)
  assume a: "2 \<le> length idxs \<and> (\<forall>j\<in>set idxs. 0 \<le> j \<and> j < int (length segs))"
  let ?first = "nat (Min (set idxs))"
  let ?res = "take ?first segs @ [length h] @ nths segs {k. ?first < k \<and> int k \<notin> set idxs}"
  from a have two: "2 \<le> length idxs" and valid: "\<forall>j\<in>set idxs. 0 \<le> j \<and> j < int (length segs)"
    by simp_all
  note mv = merge_segments_valid(1) [OF two valid, of h]
  have dr: "distinct ?res" by (rule merge_result_distinct [OF dist refs])
  have vr: "\<forall>r\<in>set ?res. r < length (h @ [m])" for m
  proof
    fix r assume "r \<in> set ?res"
    then have "r \<in> set segs \<or> r = length h"
      by (auto dest: in_set_takeD in_set_nthsD)
    then show "r < length (h @ [m])" using refs by (auto simp: less_Suc_eq)
  qed
  show "\<exists>h' res. merge_segments h segs idxs = Inr (h', res)
             \<and> map seg_index (view h' res) = map (\<lambda>k. Some (int k + 1)) [0..<length res]"
    using mv renumber_view_index [OF dr vr] by blast
next
  assume a: "i < length segs \<and> seg_start (h ! (segs ! i)) < t \<and> t < seg_end (h ! (segs ! i))"
  let ?res = "take i segs @ [length h, Suc (length h)] @ drop (Suc i) segs"
  from a have i: "i < length segs" and t: "seg_start (h ! (segs ! i)) < t" "t < seg_end (h ! (segs ! i))"
    by simp_all
  note sv = split_segment_valid [OF i t]
  have dr: "distinct ?res" by (rule split_result_distinct [OF dist refs])
  have vr: "\<forall>r\<in>set ?res. r < length (h @ [m1, m2])" for m1 m2
  proof
    fix r assume "r \<in> set ?res"
    then have "r \<in> set segs \<or> r = length h \<or> r = Suc (length h)"
      by (auto dest: in_set_takeD in_set_dropD)
    then show "r < length (h @ [m1, m2])" using refs by (auto simp: less_Suc_eq)
  qed
  show "\<exists>h' res. split_segment h segs (int i) t = Inr (h', res)
             \<and> map seg_index (view h' res) = map (\<lambda>k. Some (int k + 1)) [0..<length res]"
    using sv renumber_view_index [OF dr vr] by blast
next
  assume i: "i < length segs"
  from adjust_timing_cells [OF refs i, of start_delta end_delta]
  obtain h' res where a: "adjust_timing h segs (int i) start_delta end_delta = Inr (h', res)"
    "length res = length segs"
    "h' ! (res ! i) = (h ! (segs ! i))
           \<lparr>seg_start := max 0 (seg_start (h ! (segs ! i)) + start_delta),
            seg_end := max (max 0 (seg_start (h ! (segs ! i)) + start_delta) + 0.1)
                           (seg_end (h ! (segs ! i)) + end_delta)\<rparr>"
    "\<forall>k<length segs. k \<noteq> i \<longrightarrow> h' ! (res ! k) = h ! (segs ! k)"
    by blast
  have "map seg_index (view h' res) = map seg_index (view h segs)"
  proof (rule nth_equalityI)
    show "length (map seg_index (view h' res)) = length (map seg_index (view h segs))"
      using a(2) by (simp add: view_def)
  next
    fix k assume "k < length (map seg_index (view h' res))"
    then have k: "k < length segs" using a(2) by (simp add: view_def)
    show "map seg_index (view h' res) ! k = map seg_index (view h segs) ! k"
      using k a(2,3,4) by (cases "k = i") (simp_all add: view_def)
  qed
  then show "\<exists>h' res. adjust_timing h segs (int i) start_delta end_delta = Inr (h', res)
             \<and> map seg_index (view h' res) = map seg_index (view h segs)"
    using a(1) by blast
qed

lemma example_refs: "\<forall>r\<in>set [0, 1, 2]. r < length example_heap"
  by (simp add: example_heap_def)

text \<open>
  An instance of C3: positions \<open>1\<close> and \<open>0\<close> of the example, given in descending order.
\<close>

theorem merge_segments_replaces_selected_witness:
  "\<exists>h' res. merge_segments example_heap [0, 1, 2] [1, 0] = Inr (h', res)
     \<and> length res = 2
     \<and> seg_start (h' ! (res ! 0)) = 1 \<and> seg_end (h' ! (res ! 0)) = 5
     \<and> seg_text (h' ! (res ! 0)) = ''Hello world Bye''"
proof -
  have a: "2 \<le> length [1, 0 :: int]" "distinct [1, 0 :: int]"
    "\<forall>i\<in>set [1, 0 :: int]. 0 \<le> i \<and> i < int (length [0, 1, 2 :: nat])"
    by simp_all
  from merge_segments_replaces_selected [OF example_refs a]
  obtain h' res where "merge_segments example_heap [0, 1, 2] [1, 0] = Inr (h', res)"
    "length res = length [0, 1, 2 :: nat] - (length [1, 0 :: int] - 1)"
    "seg_start (h' ! (res ! nat (Min (set [1, 0])))) = seg_start (example_heap ! ([0, 1, 2] ! nat (Min (set [1, 0]))))"
    "seg_end (h' ! (res ! nat (Min (set [1, 0])))) = seg_end (example_heap ! ([0, 1, 2] ! nat (Max (set [1, 0]))))"
    "seg_text (h' ! (res ! nat (Min (set [1, 0]))))
          = join '' '' (map (\<lambda>i. seg_text (example_heap ! ([0, 1, 2] ! nat i))) (sort [1, 0]))"
    by blast
  then show ?thesis
    by (intro exI [of _ h'] exI [of _ res]) (simp add: example_heap_def)
qed


text \<open>An instance of C10 on the example, whose segments all carry an \<open>original\<close>.\<close>

theorem merge_segments_drops_original_witness:
  "\<exists>h' res. merge_segments example_heap [0, 1, 2] [1, 0] = Inr (h', res)
     \<and> seg_original (h' ! (res ! 0)) = None"
proof -
  have a: "2 \<le> length [1, 0 :: int]" "distinct [1, 0 :: int]"
    "\<forall>i\<in>set [1, 0 :: int]. 0 \<le> i \<and> i < int (length [0, 1, 2 :: nat])"
    by simp_all
  have b: "\<forall>i\<in>set [1, 0 :: int]. \<exists>s. seg_original (example_heap ! ([0, 1, 2] ! nat i)) = Some s \<and> s \<noteq> []"
    by (simp add: example_heap_def)
  from merge_segments_drops_original [OF example_refs a b]
  obtain h' res where "merge_segments example_heap [0, 1, 2] [1, 0] = Inr (h', res)"
    "seg_original (h' ! (res ! nat (Min (set [1, 0])))) = None"
    by blast
  then show ?thesis
    by (intro exI [of _ h'] exI [of _ res]) simp
qed




text \<open>An instance of C7 as amended; the index fields of the example are \<open>5, 6, 7\<close>.\<close>

theorem structural_edits_renumber_witness:
  "(\<exists>h' res. merge_segments example_heap [0, 1, 2] [1, 0] = Inr (h', res)
      \<and> map seg_index (view h' res) = [Some 1, Some 2])
   \<and> (\<exists>h' res. split_segment example_heap [0, 1, 2] 0 2 = Inr (h', res)
      \<and> map seg_index (view h' res) = [Some 1, Some 2, Some 3, Some 4])
   \<and> (\<exists>h' res. adjust_timing example_heap [0, 1, 2] 0 1 1 = Inr (h', res)
      \<and> map seg_index (view h' res) = [Some 5, Some 6, Some 7])"
proof -
  have a: "distinct [0, 1, 2 :: nat]" by simp
  have m: "2 \<le> length [1, 0 :: int] \<and> (\<forall>j\<in>set [1, 0 :: int]. 0 \<le> j \<and> j < int (length [0, 1, 2 :: nat]))"
    by simp
  have s: "0 < length [0, 1, 2 :: nat] \<and> seg_start (example_heap ! ([0, 1, 2] ! 0)) < 2
      \<and> 2 < seg_end (example_heap ! ([0, 1, 2] ! 0))"
    by (simp add: example_heap_def)
  note t = structural_edits_renumber [OF example_refs a, of "[1, 0]" 0 2 1 1]
  from t m obtain h1 r1 where 1: "merge_segments example_heap [0, 1, 2] [1, 0] = Inr (h1, r1)"
    "map seg_index (view h1 r1) = map (\<lambda>k. Some (int k + 1)) [0..<length r1]"
    by blast
  from t s obtain h2 r2 where 2: "split_segment example_heap [0, 1, 2] (int 0) 2 = Inr (h2, r2)"
    "map seg_index (view h2 r2) = map (\<lambda>k. Some (int k + 1)) [0..<length r2]"
    by blast
  from t s obtain h3 r3 where 3: "adjust_timing example_heap [0, 1, 2] (int 0) 1 1 = Inr (h3, r3)"
    "map seg_index (view h3 r3) = map seg_index (view example_heap [0, 1, 2])"
    by blast
  have "map_sum id snd (merge_segments example_heap [0, 1, 2] [1, 0]) = Inr [3, 2]"
    by code_simp
  then have l1: "r1 = [3, 2]" using 1(1) by simp
  have "map_sum id snd (split_segment example_heap [0, 1, 2] 0 2) = Inr [3, 4, 1, 2]"
    by code_simp
  then have l2: "r2 = [3, 4, 1, 2]" using 2(1) by simp
  have u: "[0..<4] = [0, 1, 2, 3]" "[0..<2] = [0, 1]" by (simp_all add: upt_rec)
  have i1: "map seg_index (view h1 r1) = [Some 1, Some 2]"
    using 1(2) by (simp add: l1 u)
  have i2: "map seg_index (view h2 r2) = [Some 1, Some 2, Some 3, Some 4]"
    using 2(2) by (simp add: l2 u)
  have i3: "map seg_index (view h3 r3) = [Some 5, Some 6, Some 7]"
    using 3(2) by (simp add: view_def example_heap_def)
  show ?thesis
    using 1(1) 2(1) 3(1) i1 i2 i3 by simp
qed

text \<open>
  Claim C7 as stated fails for the shift: the index fields \<open>5, 6, 7\<close> of the example are
  still \<open>5, 6, 7\<close> after \<open>adjust_timing\<close>, not \<open>1, 2, 3\<close>.
\<close>

theorem adjust_timing_keeps_index_counterexample:
  "result_view (adjust_timing example_heap [0, 1, 2] 0 1 1) =
     Inr [\<lparr>seg_index = Some 5, seg_start = 2, seg_end = 4.5, seg_text = ''Hello world'',
            seg_original = Some ''Hallo Welt''\<rparr>,
          \<lparr>seg_index = Some 6, seg_start = 3.5, seg_end = 5, seg_text = ''Bye'',
            seg_original = Some ''Tschau''\<rparr>,
          \<lparr>seg_index = Some 7, seg_start = 5, seg_end = 5.05, seg_text = ''The quick brown fox'',
            seg_original = Some ''Der Fuchs''\<rparr>]"
  by code_simp

text \<open>
  Claim C1 says that a merge with an index out of range returns its input and does not
  raise. \<open>merge_segments\<close> has no range check: with the positions \<open>1\<close> and \<open>3\<close> on three
  segments it raises \<open>IndexError\<close>, and with \<open>-1\<close> and \<open>0\<close> it drops the first segment and
  puts no merged segment into the result.
\<close>

theorem merge_segments_index_out_of_range:
  "merge_segments example_heap [0, 1, 2] [1, 3] = Inl IndexError
   \<and> result_view (merge_segments example_heap [0, 1, 2] [- 1, 0]) =
       Inr [\<lparr>seg_index = Some 1, seg_start = 3.5, seg_end = 5, seg_text = ''Bye'',
              seg_original = Some ''Tschau''\<rparr>,
            \<lparr>seg_index = Some 2, seg_start = 5, seg_end = 5.05,
              seg_text = ''The quick brown fox'', seg_original = Some ''Der Fuchs''\<rparr>]"
  by code_simp

text \<open>
  Claim C6 says that the input is unchanged after every editing operation. The third
  segment of the example has index \<open>7\<close>. It is shared with the result of a merge of the
  first two segments, and of a split of the first segment, and the renumbering of the
  result assigns to it: read through the input sequence after the call, its index is \<open>2\<close>
  after the merge and \<open>4\<close> after the split.
\<close>

theorem merge_and_split_overwrite_input_index:
  "view example_heap [0, 1, 2] ! 2 =
     \<lparr>seg_index = Some 7, seg_start = 5, seg_end = 5.05, seg_text = ''The quick brown fox'',
      seg_original = Some ''Der Fuchs''\<rparr>
   \<and> input_after [0, 1, 2] (merge_segments example_heap [0, 1, 2] [0, 1]) =
       Inr [\<lparr>seg_index = Some 5, seg_start = 1, seg_end = 3.5, seg_text = ''Hello world'',
              seg_original = Some ''Hallo Welt''\<rparr>,
            \<lparr>seg_index = Some 6, seg_start = 3.5, seg_end = 5, seg_text = ''Bye'',
              seg_original = Some ''Tschau''\<rparr>,
            \<lparr>seg_index = Some 2, seg_start = 5, seg_end = 5.05,
              seg_text = ''The quick brown fox'', seg_original = Some ''Der Fuchs''\<rparr>]
   \<and> input_after [0, 1, 2] (split_segment example_heap [0, 1, 2] 0 2) =
       Inr [\<lparr>seg_index = Some 5, seg_start = 1, seg_end = 3.5, seg_text = ''Hello world'',
              seg_original = Some ''Hallo Welt''\<rparr>,
            \<lparr>seg_index = Some 3, seg_start = 3.5, seg_end = 5, seg_text = ''Bye'',
              seg_original = Some ''Tschau''\<rparr>,
            \<lparr>seg_index = Some 4, seg_start = 5, seg_end = 5.05,
              seg_text = ''The quick brown fox'', seg_original = Some ''Der Fuchs''\<rparr>]"
  by code_simp

subsection \<open>Calls that change nothing\<close>

lemma merge_segments_too_few: "length idxs < 2 \<Longrightarrow> merge_segments h segs idxs = Inr (h, segs)"
  by (simp add: merge_segments_def)

lemma split_segment_noop:
  "index < 0 \<or> int (length segs) \<le> index \<Longrightarrow> split_segment h segs index t = Inr (h, segs)"
  "i < length segs \<Longrightarrow> t \<le> seg_start (h ! (segs ! i)) \<or> seg_end (h ! (segs ! i)) \<le> t \<Longrightarrow>
     split_segment h segs (int i) t = Inr (h, segs)"
  by (auto simp: split_segment_def py_index_def)

lemma adjust_timing_noop:
  "index < 0 \<or> int (length segs) \<le> index \<Longrightarrow>
     adjust_timing h segs index start_delta end_delta = Inr (h, segs)"
  by (auto simp: adjust_timing_def)

section \<open>Properties of the parsers\<close>

lemma digits_val_all: "list_all is_digit ds \<Longrightarrow> \<exists>n. digits_val acc ds = Some n"
  by (induction ds arbitrary: acc) simp_all

lemma py_int_digits:
  assumes "list_all is_digit ds" "ds \<noteq> []"
  shows "\<exists>n. py_int ds = Some n"
proof -
  obtain c cs where ds: "ds = c # cs" using assms(2) by (cases ds) auto
  have c: "is_digit c" "list_all is_digit cs" using assms(1) ds by simp_all
  have "is_digit (last ds)" using assms by (simp add: list_all_iff)
  then have s: "strip ds = ds"
    using assms(2) c(1) ds by (intro strip_id) (simp_all add: digit_not_space)
  obtain n where "digits_val (digit_val c) cs = Some n" using digits_val_all [OF c(2)] by blast
  then show ?thesis using c(1) digit_not_sign [OF c(1)]
    by (simp add: py_int_def s [unfolded ds] ds nat_of_str_def)
qed

lemma re_digits_Some:
  "re_digits n s = Some (d, r) \<Longrightarrow> list_all is_digit d \<and> length d = n \<and> s = d @ r"
  by (auto simp: re_digits_def split: if_splits)

lemma re_char_Some: "re_char P s = Some (c, r) \<Longrightarrow> \<exists>x. c = [x] \<and> P x \<and> s = x # r"
  by (auto simp: re_char_def split: list.splits if_splits)

lemma re_timestamp_full_Some:
  assumes "re_timestamp_full s = Some ((h, m, sec, ms), r)"
  shows "list_all is_digit h \<and> length h = 2 \<and> list_all is_digit m \<and> length m = 2
       \<and> list_all is_digit sec \<and> length sec = 2 \<and> list_all is_digit ms \<and> length ms = 3
       \<and> (\<exists>c1 c2 c3. is_colon c1 \<and> is_colon c2 \<and> is_sep c3
              \<and> s = h @ [c1] @ m @ [c2] @ sec @ [c3] @ ms @ r)"
  using assms
  by (auto simp: re_timestamp_full_def split: Option.bind_splits dest!: re_digits_Some re_char_Some)

lemma re_timestamp_short_Some:
  assumes "re_timestamp_short s = Some ((m, sec, ms), r)"
  shows "list_all is_digit m \<and> length m = 2
       \<and> list_all is_digit sec \<and> length sec = 2 \<and> list_all is_digit ms \<and> length ms = 3
       \<and> (\<exists>c2 c3. is_colon c2 \<and> is_sep c3 \<and> s = m @ [c2] @ sec @ [c3] @ ms @ r)"
  using assms
  by (auto simp: re_timestamp_short_def split: Option.bind_splits dest!: re_digits_Some re_char_Some)

lemma py_int_group: "list_all is_digit d \<Longrightarrow> 0 < length d \<Longrightarrow> \<exists>n. py_int d = Some n"
  by (rule py_int_digits) auto

lemma parse_timestamp_srt_total: "\<exists>x. parse_timestamp_srt ts = Inr x"
proof (cases "re_timestamp_full (strip ts)")
  case None
  then show ?thesis by (simp add: parse_timestamp_srt_def)
next
  case (Some a)
  then obtain h m sec ms r where a: "re_timestamp_full (strip ts) = Some ((h, m, sec, ms), r)"
    by (cases a) auto
  from re_timestamp_full_Some [OF a]
  obtain hv mv sv msv where "py_int h = Some hv" "py_int m = Some mv" "py_int sec = Some sv"
    "py_int ms = Some msv"
    by (metis py_int_group zero_less_numeral)
  then show ?thesis by (simp add: parse_timestamp_srt_def a)
qed

lemma parse_timestamp_vtt_total: "\<exists>x. parse_timestamp_vtt ts = Inr x"
proof (cases "re_timestamp_full (strip ts)")
  case None
  show ?thesis
  proof (cases "re_timestamp_short (strip ts)")
    case None
    then show ?thesis using \<open>re_timestamp_full (strip ts) = None\<close>
      by (simp add: parse_timestamp_vtt_def)
  next
    case (Some a)
    then obtain m sec ms r where a: "re_timestamp_short (strip ts) = Some ((m, sec, ms), r)"
      by (cases a) auto
    from re_timestamp_short_Some [OF a]
    obtain mv sv msv where "py_int m = Some mv" "py_int sec = Some sv" "py_int ms = Some msv"
      by (metis py_int_group zero_less_numeral)
    then show ?thesis using \<open>re_timestamp_full (strip ts) = None\<close>
      by (simp add: parse_timestamp_vtt_def a)
  qed
next
  case (Some a)
  then obtain h m sec ms r where a: "re_timestamp_full (strip ts) = Some ((h, m, sec, ms), r)"
    by (cases a) auto
  from re_timestamp_full_Some [OF a]
  obtain hv mv sv msv where "py_int h = Some hv" "py_int m = Some mv" "py_int sec = Some sv"
    "py_int ms = Some msv"
    by (metis py_int_group zero_less_numeral)
  then show ?thesis by (simp add: parse_timestamp_vtt_def a)
qed

lemma parse_srt_block_total: "\<exists>x. parse_srt_block block = Inr x"
proof -
  let ?lines = "split_lines (strip block)"
  show ?thesis
  proof (cases "length ?lines < 3")
    case True
    then show ?thesis by (simp add: parse_srt_block_def Let_def)
  next
    case False
    then have "?lines \<noteq> []" "1 < int (length ?lines)" by auto
    then have p: "py_index ?lines 0 = Inr (?lines ! 0)" "py_index ?lines 1 = Inr (?lines ! 1)"
      by (simp_all add: py_index_def)
    show ?thesis
    proof (cases "py_int (strip (?lines ! 0))")
      case None
      then show ?thesis using False by (simp add: parse_srt_block_def p)
    next
      case (Some index)
      show ?thesis
      proof (cases "re_timing re_timestamp_text (strip (?lines ! 1))")
        case None
        then show ?thesis using False Some by (simp add: parse_srt_block_def p)
      next
        case (Some g)
        obtain g1 g2 where g: "g = (g1, g2)" by (cases g)
        obtain start where s: "parse_timestamp_srt g1 = Inr start"
          using parse_timestamp_srt_total by blast
        obtain end' where e: "parse_timestamp_srt g2 = Inr end'"
          using parse_timestamp_srt_total by blast
        show ?thesis
          using False \<open>py_int (strip (?lines ! 0)) = Some index\<close> Some
          by (simp add: parse_srt_block_def p g s e Let_def)
      qed
    qed
  qed
qed

lemma parse_srt_loop_eq:
  "parse_srt_loop blocks segments = Inr (segments @ List.map_filter srt_block_segment blocks)"
proof (induction blocks arbitrary: segments)
  case Nil
  show ?case by simp
next
  case (Cons b blocks)
  obtain x where x: "parse_srt_block b = Inr x" using parse_srt_block_total by blast
  show ?case
    by (cases x) (simp_all add: x Cons.IH srt_block_segment_def)
qed

lemma find_timing_line_Some:
  "find_timing_line i lines = Some k \<Longrightarrow> i \<le> k \<and> k < i + length lines"
proof (induction lines arbitrary: i)
  case Nil
  then show ?case by simp
next
  case (Cons l lines)
  show ?case
  proof (cases "contains ''-->'' l")
    case True
    then show ?thesis using Cons.prems by simp
  next
    case False
    then have "find_timing_line (Suc i) lines = Some k" using Cons.prems by simp
    then have "Suc i \<le> k \<and> k < Suc i + length lines" by (rule Cons.IH)
    then show ?thesis by simp
  qed
qed

lemma parse_vtt_block_total: "\<exists>x. parse_vtt_block index block = Inr x"
proof -
  let ?lines = "split_lines (strip block)"
  show ?thesis
  proof (cases "find_timing_line 0 ?lines")
    case None
    then show ?thesis by (simp add: parse_vtt_block_def Let_def)
  next
    case (Some k)
    then have "k < length ?lines" using find_timing_line_Some [of 0 ?lines k] by simp
    then have p: "py_index ?lines (int k) = Inr (?lines ! k)" by (simp add: py_index_def)
    show ?thesis
    proof (cases "re_timing re_timestamp_text_vtt (strip (?lines ! k))")
      case None
      then show ?thesis using Some by (simp add: parse_vtt_block_def p Let_def)
    next
      case (Some g)
      obtain g1 g2 where g: "g = (g1, g2)" by (cases g)
      obtain start where s: "parse_timestamp_vtt g1 = Inr start"
        using parse_timestamp_vtt_total by blast
      obtain end' where e: "parse_timestamp_vtt g2 = Inr end'"
        using parse_timestamp_vtt_total by blast
      show ?thesis
        using \<open>find_timing_line 0 ?lines = Some k\<close> Some
        by (simp add: parse_vtt_block_def p g s e Let_def)
    qed
  qed
qed

lemma parse_vtt_loop_total: "\<exists>segs. parse_vtt_loop blocks index segments = Inr segs"
proof (induction blocks arbitrary: index segments)
  case Nil
  show ?case by simp
next
  case (Cons b blocks)
  obtain x where x: "parse_vtt_block index b = Inr x" using parse_vtt_block_total by blast
  show ?case
    by (cases x) (simp_all add: x Cons.IH)
qed

lemma parse_vtt_loop_none:
  "\<forall>b\<in>set blocks. parse_vtt_block index b = Inr None \<Longrightarrow>
   parse_vtt_loop blocks index segments = Inr segments"
  by (induction blocks) simp_all

lemma parse_srt_block_dropped:
  assumes "3 \<le> length (split_lines (strip block))"
    and "py_int (strip (split_lines (strip block) ! 0)) = None
         \<or> re_timing re_timestamp_text (strip (split_lines (strip block) ! 1)) = None"
  shows "parse_srt_block block = Inr None"
proof -
  let ?lines = "split_lines (strip block)"
  have "?lines \<noteq> []" "1 < int (length ?lines)" using assms(1) by auto
  then have p: "py_index ?lines 0 = Inr (?lines ! 0)" "py_index ?lines 1 = Inr (?lines ! 1)"
    by (simp_all add: py_index_def)
  have l: "\<not> length ?lines < 3" using assms(1) by simp
  show ?thesis
    using assms(2) l by (auto simp: parse_srt_block_def p Let_def split: option.splits)
qed

lemma parse_vtt_block_dropped:
  assumes "find_timing_line 0 (split_lines (strip block)) = None
     \<or> (\<exists>k. find_timing_line 0 (split_lines (strip block)) = Some k
            \<and> re_timing re_timestamp_text_vtt (strip (split_lines (strip block) ! k)) = None)"
  shows "parse_vtt_block index block = Inr None"
proof -
  let ?lines = "split_lines (strip block)"
  from assms show ?thesis
  proof
    assume "find_timing_line 0 ?lines = None"
    then show ?thesis by (simp add: parse_vtt_block_def Let_def)
  next
    assume "\<exists>k. find_timing_line 0 ?lines = Some k
            \<and> re_timing re_timestamp_text_vtt (strip (?lines ! k)) = None"
    then obtain k where k: "find_timing_line 0 ?lines = Some k"
      "re_timing re_timestamp_text_vtt (strip (?lines ! k)) = None" by blast
    then have "k < length ?lines" using find_timing_line_Some [of 0 ?lines k] by simp
    then have p: "py_index ?lines (int k) = Inr (?lines ! k)" by (simp add: py_index_def)
    show ?thesis using k by (simp add: parse_vtt_block_def p Let_def)
  qed
qed

lemma parse_srt_loop_none:
  "\<forall>b\<in>set blocks. parse_srt_block b = Inr None \<Longrightarrow> parse_srt_loop blocks segments = Inr segments"
  by (induction blocks) simp_all

text \<open>
  Claim C9. For every input string both parsers return a list and both timestamp decoders
  return a number; none of them raises. A decoder returns \<open>0\<close> when its argument matches
  no timestamp pattern. In \<open>parse_srt\<close> a block of at least three lines whose first line is
  not an integer, or whose second line does not match the timing pattern, yields no
  segment, and the loop goes on as if the block were not there; likewise in \<open>parse_vtt\<close> for
  a block whose timing line does not match. A document none of whose blocks yields a
  segment parses to the empty list.
\<close>

theorem malformed_content_never_raises:
  "(\<exists>segs. parse_srt content = Inr segs)
   \<and> (\<exists>segs. parse_vtt content = Inr segs)
   \<and> (\<exists>x. parse_timestamp_srt ts = Inr x)
   \<and> (\<exists>x. parse_timestamp_vtt ts = Inr x)
   \<and> (re_timestamp_full (strip ts) = None \<longrightarrow> parse_timestamp_srt ts = Inr 0)
   \<and> (re_timestamp_full (strip ts) = None \<and> re_timestamp_short (strip ts) = None \<longrightarrow>
        parse_timestamp_vtt ts = Inr 0)
   \<and> (3 \<le> length (split_lines (strip block))
        \<and> (py_int (strip (split_lines (strip block) ! 0)) = None
            \<or> re_timing re_timestamp_text (strip (split_lines (strip block) ! 1)) = None) \<longrightarrow>
        parse_srt_block block = Inr None
        \<and> parse_srt_loop (block # blocks) segments = parse_srt_loop blocks segments)
   \<and> ((\<exists>k. find_timing_line 0 (split_lines (strip block)) = Some k
            \<and> re_timing re_timestamp_text_vtt (strip (split_lines (strip block) ! k)) = None) \<longrightarrow>
        parse_vtt_block index block = Inr None
        \<and> parse_vtt_loop (block # blocks) index segments = parse_vtt_loop blocks index segments)
   \<and> ((\<forall>b\<in>set (split_blocks (strip content)). parse_srt_block b = Inr None) \<longrightarrow>
        parse_srt content = Inr [])
   \<and> ((\<forall>b\<in>set (split_blocks (strip (remove_vtt_header content))).
          parse_vtt_block 0 b = Inr None) \<longrightarrow>
        parse_vtt content = Inr [])"
proof (intro conjI impI)
  show "\<exists>segs. parse_srt content = Inr segs"
    by (simp add: parse_srt_def parse_srt_loop_eq)
  show "\<exists>segs. parse_vtt content = Inr segs"
    unfolding parse_vtt_def by (rule parse_vtt_loop_total)
  show "\<exists>x. parse_timestamp_srt ts = Inr x" by (rule parse_timestamp_srt_total)
  show "\<exists>x. parse_timestamp_vtt ts = Inr x" by (rule parse_timestamp_vtt_total)
  show "parse_timestamp_srt ts = Inr 0" if "re_timestamp_full (strip ts) = None"
    using that by (simp add: parse_timestamp_srt_def)
  show "parse_timestamp_vtt ts = Inr 0"
    if "re_timestamp_full (strip ts) = None \<and> re_timestamp_short (strip ts) = None"
    using that by (simp add: parse_timestamp_vtt_def)
  show "parse_srt content = Inr []"
    if "\<forall>b\<in>set (split_blocks (strip content)). parse_srt_block b = Inr None"
    using that by (simp add: parse_srt_def parse_srt_loop_none)
  show "parse_vtt content = Inr []"
    if "\<forall>b\<in>set (split_blocks (strip (remove_vtt_header content))). parse_vtt_block 0 b = Inr None"
    using that by (simp add: parse_vtt_def parse_vtt_loop_none)
next
  assume a: "3 \<le> length (split_lines (strip block))
        \<and> (py_int (strip (split_lines (strip block) ! 0)) = None
            \<or> re_timing re_timestamp_text (strip (split_lines (strip block) ! 1)) = None)"
  then show d: "parse_srt_block block = Inr None" by (intro parse_srt_block_dropped) simp_all
  show "parse_srt_loop (block # blocks) segments = parse_srt_loop blocks segments"
    by (simp add: d)
next
  assume a: "\<exists>k. find_timing_line 0 (split_lines (strip block)) = Some k
            \<and> re_timing re_timestamp_text_vtt (strip (split_lines (strip block) ! k)) = None"
  then show d: "parse_vtt_block index block = Inr None" by (intro parse_vtt_block_dropped) simp
  show "parse_vtt_loop (block # blocks) index segments = parse_vtt_loop blocks index segments"
    by (simp add: d)
qed

text \<open>
  An instance of C9: a document without any timing line, a string that is no timestamp, a
  block whose first line is not a number, and a block whose timing line lacks its end.
\<close>

theorem malformed_content_never_raises_witness:
  "parse_srt ''hello\<newline>\<newline>world'' = Inr []
   \<and> parse_vtt ''hello\<newline>\<newline>world'' = Inr []
   \<and> parse_timestamp_srt ''1:2:3'' = Inr 0
   \<and> parse_timestamp_vtt ''1:2:3'' = Inr 0
   \<and> parse_srt_block ''one\<newline>00:00:01,000 --> 00:00:02,000\<newline>Hello'' = Inr None
   \<and> parse_vtt_block 0 ''one\<newline>00:00:01,000 -->\<newline>Hello'' = Inr None"
proof -
  let ?c = "''hello\<newline>\<newline>world''"
  let ?b = "''one\<newline>00:00:01,000 --> 00:00:02,000\<newline>Hello''"
  let ?v = "''one\<newline>00:00:01,000 -->\<newline>Hello''"
  have h1: "\<forall>b\<in>set (split_blocks (strip ?c)). parse_srt_block b = Inr None"
    by code_simp
  have h2: "\<forall>b\<in>set (split_blocks (strip (remove_vtt_header ?c))). parse_vtt_block 0 b = Inr None"
    by code_simp
  have h3: "re_timestamp_full (strip ''1:2:3'') = None" "re_timestamp_short (strip ''1:2:3'') = None"
    by code_simp+
  have h4: "3 \<le> length (split_lines (strip ?b))
        \<and> (py_int (strip (split_lines (strip ?b) ! 0)) = None
            \<or> re_timing re_timestamp_text (strip (split_lines (strip ?b) ! 1)) = None)"
    by code_simp
  have h5: "\<exists>k. find_timing_line 0 (split_lines (strip ?v)) = Some k
            \<and> re_timing re_timestamp_text_vtt (strip (split_lines (strip ?v) ! k)) = None"
    by (rule exI [of _ 1]) code_simp
  note t = malformed_content_never_raises [of ?c "''1:2:3''" ?b "[]" "[]" 0]
  note u = malformed_content_never_raises [of ?c "''1:2:3''" ?v "[]" "[]" 0]
  have a1: "parse_srt ?c = Inr []" using t h1 by (simp only: simp_thms)
  have a2: "parse_vtt ?c = Inr []" using t h2 by (simp only: simp_thms)
  have a3: "parse_timestamp_srt ''1:2:3'' = Inr 0" using t h3 by (simp only: simp_thms)
  have a4: "parse_timestamp_vtt ''1:2:3'' = Inr 0" using t h3 by (simp only: simp_thms)
  have a5: "parse_srt_block ?b = Inr None" using t h4 by (simp only: simp_thms)
  have a6: "parse_vtt_block 0 ?v = Inr None" using u h5 by (simp only: simp_thms)
  from a1 a2 a3 a4 a5 a6 show ?thesis by (simp only: simp_thms)
qed

end
